theory Spec2Isabelle
  imports Complex_Main "HOL-Library.Word" "HOL-Library.Sublist"
begin

section \<open>Strings, numbers and errors\<close>

text \<open>
  A JavaScript string is a sequence of UTF-16 code units and \<open>s.length\<close> counts them, so a
  string is a list of 16-bit words. The Arabic source text, the verse-end mark U+06DD and the
  Arabic-Indic digits U+0660 .. U+0669 are all single code units. \<open>js\<close> writes an ASCII
  literal of the source as code units.

  Verse numbers and lengths are JavaScript numbers holding non-negative integers; they are
  modelled as \<open>nat\<close>. \<open>toString\<close> is \<open>Number.prototype.toString\<close> on such a value: the
  decimal digits, most significant first, no leading zero (what JavaScript prints for an
  integer below \<open>10\<^sup>2\<^sup>1\<close>; verse numbers are at most 286).
\<close>

type_synonym jsstring = "16 word list"

definition js :: "string \<Rightarrow> jsstring" where
  "js s = map of_char s"

datatype error = TypeError

definition digitChar :: "nat \<Rightarrow> 16 word" where
  "digitChar d = of_nat (48 + d)"

fun toString :: "nat \<Rightarrow> jsstring" where
  "toString n = (if n < 10 then [digitChar n] else toString (n div 10) @ [digitChar (n mod 10)])"

declare toString.simps [simp del]


text \<open>\<open>xs[i]\<close> of JavaScript: \<open>undefined\<close> (here \<open>None\<close>) beyond the end of the array.\<close>

definition elemAt :: "'a list \<Rightarrow> nat \<Rightarrow> 'a option" where
  "elemAt xs i = (if i < length xs then Some (xs ! i) else None)"

text \<open>\<open>parts.join(sep)\<close>.\<close>

fun join :: "jsstring \<Rightarrow> jsstring list \<Rightarrow> jsstring" where
  "join sep [] = []"
| "join sep [x] = x"
| "join sep (x # y # ys) = x @ sep @ join sep (y # ys)"

text \<open>\<open>s.includes(word)\<close>: \<open>word\<close> occurs in \<open>s\<close> as a contiguous run of code units.\<close>

definition stringIncludes :: "jsstring \<Rightarrow> jsstring \<Rightarrow> bool" where
  "stringIncludes s word \<longleftrightarrow> sublist word s"

section \<open>Numeral conversion (convertToArabicNumerals)\<close>

text \<open>
  \<^verbatim>\<open>n.toString().replace(/\d/g, (d) => arabicDigits[parseInt(d)])\<close>: every code unit of the
  decimal string that matches \<^verbatim>\<open>\d\<close> (an ASCII digit) is replaced by the entry of the table
  at the digit's value; any other code unit is kept.
\<close>

definition arabicDigits :: "jsstring list" where
  "arabicDigits =
     [[0x660], [0x661], [0x662], [0x663], [0x664], [0x665], [0x666], [0x667], [0x668], [0x669]]"

definition isDigit :: "16 word \<Rightarrow> bool" where
  "isDigit c \<longleftrightarrow> 0x30 \<le> c \<and> c \<le> 0x39"

definition parseInt :: "16 word \<Rightarrow> nat" where
  "parseInt d = unat d - 48"

definition replaceDigits :: "(16 word \<Rightarrow> jsstring) \<Rightarrow> jsstring \<Rightarrow> jsstring" where
  "replaceDigits f s = concat (map (\<lambda>c. if isDigit c then f c else [c]) s)"

definition convertToArabicNumerals :: "nat \<Rightarrow> jsstring" where
  "convertToArabicNumerals n = replaceDigits (\<lambda>d. arabicDigits ! parseInt d) (toString n)"

section \<open>Data model (types.ts and the records of the verse API)\<close>

record Ayah =
  "text" :: jsstring
  numberInSurah :: nat

record VerseSegment =
  arabic :: jsstring
  translation :: jsstring
  surah :: jsstring
  ayah :: jsstring

datatype BackgroundType = SKY | NATURE | JANNAT

datatype TextColor = white | black

record DesignConfig =
  backgroundType :: BackgroundType
  textColor :: TextColor
  opacity :: real

section \<open>Segment construction (pushSegment)\<close>

text \<open>
  The three strings \<open>pushSegment\<close> computes, named after its local variables. A chunk of
  translations may hold \<open>undefined\<close> entries (in geminiService.ts, where \<open>transAyahs[i]\<close> is
  pushed as it is); reading \<open>t.text\<close> of such an entry throws a TypeError, as does
  \<open>arabicChunk[0].numberInSurah\<close> on an empty chunk.
\<close>

definition arabicText :: "Ayah list \<Rightarrow> jsstring" where
  "arabicText arabicChunk =
     join (js '' '')
       (map (\<lambda>a. text a @ [0x20, 0x6DD] @ convertToArabicNumerals (numberInSurah a)) arabicChunk)"

definition transText :: "Ayah list \<Rightarrow> jsstring" where
  "transText transChunk =
     join (js '' '')
       (map (\<lambda>t. text t @ js '' ('' @ toString (numberInSurah t) @ js '')'') transChunk)"

definition ayahLabel :: "nat \<Rightarrow> nat \<Rightarrow> jsstring" where
  "ayahLabel firstNum lastNum =
     (if firstNum = lastNum then toString firstNum
      else toString firstNum @ js ''-'' @ toString lastNum)"

definition pushSegment ::
  "VerseSegment list \<Rightarrow> Ayah list \<Rightarrow> Ayah option list \<Rightarrow> jsstring \<Rightarrow> error + VerseSegment list"
where
  "pushSegment segments arabicChunk transChunk surahName =
     (case arabicChunk of
        [] \<Rightarrow> Inl TypeError
      | _ # _ \<Rightarrow>
          (let firstNum = numberInSurah (hd arabicChunk);
               lastNum = numberInSurah (last arabicChunk)
           in case those transChunk of
                None \<Rightarrow> Inl TypeError
              | Some ts \<Rightarrow>
                  Inr (segments @
                    [\<lparr>arabic = arabicText arabicChunk,
                      translation = transText ts,
                      surah = surahName,
                      ayah = ayahLabel firstNum lastNum\<rparr>])))"

section \<open>Smart grouping (the loop of fetchVerseAndDesign)\<close>

text \<open>
  The state of the loop is its four local variables. The two versions of the file differ in
  one line, the translation pushed for index \<open>i\<close>:
  \<^item> part_000: \<^verbatim>\<open>transAyahs[i] || { text: '', numberInSurah: verse.numberInSurah }\<close>;
  \<^item> geminiService.ts: \<^verbatim>\<open>transAyahs[i]\<close>, \<open>undefined\<close> beyond the end of the array.
  The loop takes that line as its first argument.
\<close>

definition TARGET_CARD_CAPACITY :: nat where
  "TARGET_CARD_CAPACITY = 450"

record loop_state =
  segments :: "VerseSegment list"
  currentChunkArabic :: "Ayah list"
  currentChunkTrans :: "Ayah option list"
  currentLength :: nat

definition transOrFallback :: "Ayah list \<Rightarrow> nat \<Rightarrow> Ayah \<Rightarrow> Ayah option" where
  "transOrFallback transAyahs i verse =
     Some (case elemAt transAyahs i of
             Some t \<Rightarrow> t
           | None \<Rightarrow> \<lparr>text = [], numberInSurah = numberInSurah verse\<rparr>)"

definition transOrUndefined :: "Ayah list \<Rightarrow> nat \<Rightarrow> Ayah \<Rightarrow> Ayah option" where
  "transOrUndefined transAyahs i verse = elemAt transAyahs i"

definition loop_body :: "jsstring \<Rightarrow> Ayah \<Rightarrow> Ayah option \<Rightarrow> loop_state \<Rightarrow> error + loop_state" where
  "loop_body surahName verse trans' s =
     (let verseLength = length (text verse)
      in case (if currentLength s + verseLength > TARGET_CARD_CAPACITY
                  \<and> length (currentChunkArabic s) > 0
               then (case pushSegment (segments s) (currentChunkArabic s) (currentChunkTrans s)
                             surahName of
                       Inl e \<Rightarrow> Inl e
                     | Inr segs \<Rightarrow>
                         Inr \<lparr>segments = segs, currentChunkArabic = [],
                              currentChunkTrans = [], currentLength = 0\<rparr>)
               else Inr s) of
           Inl e \<Rightarrow> Inl e
         | Inr s1 \<Rightarrow>
             Inr \<lparr>segments = segments s1,
                  currentChunkArabic = currentChunkArabic s1 @ [verse],
                  currentChunkTrans = currentChunkTrans s1 @ [trans'],
                  currentLength = currentLength s1 + verseLength\<rparr>)"

function grouping_loop ::
  "(Ayah list \<Rightarrow> nat \<Rightarrow> Ayah \<Rightarrow> Ayah option) \<Rightarrow> Ayah list \<Rightarrow> Ayah list \<Rightarrow> jsstring \<Rightarrow> nat
     \<Rightarrow> loop_state \<Rightarrow> error + loop_state"
where
  "grouping_loop sel arabicAyahs transAyahs surahName i s =
     (if i < length arabicAyahs then
        (case loop_body surahName (arabicAyahs ! i) (sel transAyahs i (arabicAyahs ! i)) s of
           Inl e \<Rightarrow> Inl e
         | Inr s' \<Rightarrow> grouping_loop sel arabicAyahs transAyahs surahName (Suc i) s')
      else Inr s)"
  by pat_completeness auto

termination
  by (relation "measure (\<lambda>(sel, arabicAyahs, transAyahs, surahName, i, s). length arabicAyahs - i)")
     auto

declare grouping_loop.simps [simp del]

definition pushRemaining :: "jsstring \<Rightarrow> loop_state \<Rightarrow> error + VerseSegment list" where
  "pushRemaining surahName s =
     (if length (currentChunkArabic s) > 0
      then pushSegment (segments s) (currentChunkArabic s) (currentChunkTrans s) surahName
      else Inr (segments s))"

definition smartGrouping ::
  "(Ayah list \<Rightarrow> nat \<Rightarrow> Ayah \<Rightarrow> Ayah option) \<Rightarrow> Ayah list \<Rightarrow> Ayah list \<Rightarrow> jsstring
     \<Rightarrow> error + VerseSegment list"
where
  "smartGrouping sel arabicAyahs transAyahs surahName =
     (case grouping_loop sel arabicAyahs transAyahs surahName 0
             \<lparr>segments = [], currentChunkArabic = [], currentChunkTrans = [], currentLength = 0\<rparr> of
        Inl e \<Rightarrow> Inl e
      | Inr s \<Rightarrow> pushRemaining surahName s)"

subsection \<open>The grouping as index chunks\<close>

text \<open>
  A segment is a record of strings; which verses went into it is not stored. \<open>chunks\<close> runs
  the same scan on the indices alone and returns, for each segment, the list of input
  indices whose verses it holds. It is tied to the code by lemma \<open>smartGrouping_chunks\<close>:
  the segments are exactly the records \<open>pushSegment\<close> builds from these chunks, in order.
\<close>

fun chunk_loop :: "(nat \<Rightarrow> nat) \<Rightarrow> nat list \<Rightarrow> nat list list \<Rightarrow> nat list \<Rightarrow> nat \<Rightarrow> nat list list" where
  "chunk_loop len [] out cur n = (if cur \<noteq> [] then out @ [cur] else out)"
| "chunk_loop len (i # is) out cur n =
     (if n + len i > TARGET_CARD_CAPACITY \<and> cur \<noteq> []
      then chunk_loop len is (out @ [cur]) [i] (len i)
      else chunk_loop len is out (cur @ [i]) (n + len i))"

definition lengthAt :: "Ayah list \<Rightarrow> nat \<Rightarrow> nat" where
  "lengthAt arabicAyahs i = length (text (arabicAyahs ! i))"

definition chunks :: "Ayah list \<Rightarrow> nat list list" where
  "chunks arabicAyahs = chunk_loop (lengthAt arabicAyahs) [0..<length arabicAyahs] [] [] 0"

definition chunkLength :: "Ayah list \<Rightarrow> nat list \<Rightarrow> nat" where
  "chunkLength arabicAyahs c = sum_list (map (lengthAt arabicAyahs) c)"

definition translationAt :: "Ayah list \<Rightarrow> Ayah list \<Rightarrow> nat \<Rightarrow> Ayah" where
  "translationAt arabicAyahs transAyahs i =
     (if i < length transAyahs then transAyahs ! i
      else \<lparr>text = [], numberInSurah = numberInSurah (arabicAyahs ! i)\<rparr>)"

definition segmentOf :: "Ayah list \<Rightarrow> Ayah list \<Rightarrow> jsstring \<Rightarrow> nat list \<Rightarrow> VerseSegment" where
  "segmentOf arabicAyahs transAyahs surahName c =
     \<lparr>arabic = arabicText (map (\<lambda>i. arabicAyahs ! i) c),
      translation = transText (map (translationAt arabicAyahs transAyahs) c),
      surah = surahName,
      ayah = ayahLabel (numberInSurah (arabicAyahs ! hd c)) (numberInSurah (arabicAyahs ! last c))\<rparr>"

subsection \<open>Invariants of the scan\<close>

text \<open>
  \<open>capped\<close>: a chunk of two or more verses stays within the capacity. \<open>overflows c d\<close>: the
  first verse of chunk \<open>d\<close> would not have fitted into chunk \<open>c\<close>. \<open>tracks\<close> relates a state
  of the loop to a state of the scan on indices.
\<close>

definition capped :: "(nat \<Rightarrow> nat) \<Rightarrow> nat list \<Rightarrow> bool" where
  "capped len c \<longleftrightarrow> (2 \<le> length c \<longrightarrow> sum_list (map len c) \<le> TARGET_CARD_CAPACITY)"

definition overflows :: "(nat \<Rightarrow> nat) \<Rightarrow> nat list \<Rightarrow> nat list \<Rightarrow> bool" where
  "overflows len c d \<longleftrightarrow> TARGET_CARD_CAPACITY < sum_list (map len c) + len (hd d)"

definition tracks ::
  "Ayah list \<Rightarrow> Ayah list \<Rightarrow> jsstring \<Rightarrow> loop_state \<Rightarrow> nat list list \<Rightarrow> nat list \<Rightarrow> nat \<Rightarrow> bool"
where
  "tracks ar tr name s out cur n \<longleftrightarrow>
     segments s = map (segmentOf ar tr name) out
     \<and> currentChunkArabic s = map (\<lambda>j. ar ! j) cur
     \<and> currentChunkTrans s = map (\<lambda>j. Some (translationAt ar tr j)) cur
     \<and> currentLength s = n"

subsection \<open>Example inputs\<close>

text \<open>
  \<open>exampleAyahs\<close> is the end-to-end scenario of the specification: three verses of 200, 100
  and 200 code units; \<open>exampleTrans\<close> gives each a translation. \<open>oversizedAyahs\<close> has a verse
  of 500 code units between two short ones, \<open>ayahs5to8\<close> four short verses numbered 5 to 8.
\<close>

definition verseOfLength :: "nat \<Rightarrow> nat \<Rightarrow> Ayah" where
  "verseOfLength k num = \<lparr>text = replicate k 0x627, numberInSurah = num\<rparr>"

definition exampleAyahs :: "Ayah list" where
  "exampleAyahs = [verseOfLength 200 1, verseOfLength 100 2, verseOfLength 200 3]"


definition oversizedAyahs :: "Ayah list" where
  "oversizedAyahs = [verseOfLength 100 1, verseOfLength 500 2, verseOfLength 100 3]"


text \<open>A state of the loop whose pending chunk already holds an \<open>undefined\<close> translation.\<close>

definition poisoned :: "loop_state \<Rightarrow> bool" where
  "poisoned s \<longleftrightarrow> None \<in> set (currentChunkTrans s) \<and> currentChunkArabic s \<noteq> []"

section \<open>Theme classifier (getDesignFromText, part_000)\<close>

text \<open>
  \<open>keywordTable\<close> is the object literal \<^verbatim>\<open>keywords\<close>, in the order \<open>Object.entries\<close>
  walks it. The scores are a total map on the three categories.
  \<open>String.prototype.toLowerCase\<close> is a parameter of the model, and so is \<open>randomIndex\<close>,
  the value of \<^verbatim>\<open>Math.floor(Math.random() * types.length)\<close>: \<open>Math.random()\<close> lies in
  [0, 1), so the index is 0, 1 or 2. The argument is a string, so \<^verbatim>\<open>text || ''\<close> is the
  argument itself. No operation of the function can throw, so it returns a plain
  \<open>DesignConfig\<close>.
\<close>

definition wordsJANNAT :: "jsstring list" where
  "wordsJANNAT =
     map js [''paradise'', ''garden'', ''river'', ''heaven'', ''reward'', ''fruit'', ''shade'',
             ''eternity'', ''jannah'', ''bliss'', ''springs'', ''gold'', ''silk'', ''peace'']"

definition wordsSKY :: "jsstring list" where
  "wordsSKY =
     map js [''sky'', ''sun'', ''moon'', ''star'', ''night'', ''day'', ''cloud'', ''rain'',
             ''thunder'', ''universe'', ''light'', ''darkness'', ''space'', ''planet'', ''orbit'',
             ''rising'', ''setting'']"

definition wordsNATURE :: "jsstring list" where
  "wordsNATURE =
     map js [''earth'', ''mountain'', ''sea'', ''ocean'', ''land'', ''water'', ''tree'', ''plant'',
             ''wind'', ''creation'', ''animal'', ''bird'', ''cattle'', ''camel'', ''desert'',
             ''rock'']"

definition keywordTable :: "(BackgroundType \<times> jsstring list) list" where
  "keywordTable = [(JANNAT, wordsJANNAT), (SKY, wordsSKY), (NATURE, wordsNATURE)]"

definition countWords :: "jsstring \<Rightarrow> BackgroundType \<Rightarrow> jsstring list
     \<Rightarrow> (BackgroundType \<Rightarrow> nat) \<Rightarrow> (BackgroundType \<Rightarrow> nat)" where
  "countWords lowerText type words scores =
     fold (\<lambda>word scores. if stringIncludes lowerText word then scores(type := scores type + 1) else scores)
       words scores"

definition countScores :: "jsstring \<Rightarrow> (BackgroundType \<Rightarrow> nat)" where
  "countScores lowerText =
     fold (\<lambda>(type, words) scores. countWords lowerText type words scores) keywordTable (\<lambda>_. 0)"

definition types :: "BackgroundType list" where
  "types = [NATURE, SKY, JANNAT]"

definition selectBest :: "(BackgroundType \<Rightarrow> nat) \<Rightarrow> BackgroundType \<times> int" where
  "selectBest scores =
     fold (\<lambda>t (bestType, maxScore).
             if int (scores t) > maxScore then (t, int (scores t)) else (bestType, maxScore))
       types (NATURE, - 1)"

definition getDesignFromText :: "(jsstring \<Rightarrow> jsstring) \<Rightarrow> nat \<Rightarrow> jsstring \<Rightarrow> DesignConfig" where
  "getDesignFromText toLowerCase randomIndex input =
     (let lowerText = toLowerCase input;
          scores = countScores lowerText;
          (bestType, maxScore) = selectBest scores;
          bestType = (if maxScore = 0 then types ! randomIndex else bestType)
      in \<lparr>backgroundType = bestType, textColor = white, opacity = 0.5\<rparr>)"

subsection \<open>The classifier as the specification words it\<close>

text \<open>
  The score of a category is the number of its keywords that occur in the text; the choice is
  the first category, in the order nature, sky, paradise, whose score is the highest.
\<close>

definition keywordsOf :: "BackgroundType \<Rightarrow> jsstring list" where
  "keywordsOf t = concat (map snd (filter (\<lambda>e. fst e = t) keywordTable))"

definition spec_score :: "jsstring \<Rightarrow> BackgroundType \<Rightarrow> nat" where
  "spec_score lowerText t = length (filter (stringIncludes lowerText) (keywordsOf t))"

definition spec_highest :: "jsstring \<Rightarrow> nat" where
  "spec_highest lowerText =
     max (spec_score lowerText NATURE) (max (spec_score lowerText SKY) (spec_score lowerText JANNAT))"

definition spec_choice :: "jsstring \<Rightarrow> BackgroundType" where
  "spec_choice lowerText =
     (if spec_score lowerText NATURE = spec_highest lowerText then NATURE
      else if spec_score lowerText SKY = spec_highest lowerText then SKY
      else JANNAT)"

text \<open>A lower-casing of ASCII letters, to run the classifier on ASCII inputs.\<close>

definition asciiLower :: "jsstring \<Rightarrow> jsstring" where
  "asciiLower s = map (\<lambda>c. if 0x41 \<le> c \<and> c \<le> 0x5A then c + 0x20 else c) s"

section \<open>The design step of geminiService.ts\<close>

text \<open>
  geminiService.ts has no keyword classifier: it starts from a default design and asks a
  language model. The outcome of that call is a parameter: \<open>None\<close> when anything inside the
  \<open>try\<close> block threw, otherwise the parsed JSON object, each field present or not. A field
  overrides the default when it is truthy (for the opacity: not 0).
\<close>

record AiResult =
  resultBackgroundType :: "BackgroundType option"
  resultTextColor :: "TextColor option"
  resultOpacity :: "real option"

definition defaultDesign :: DesignConfig where
  "defaultDesign = \<lparr>backgroundType = NATURE, textColor = white, opacity = 0.5\<rparr>"

definition designFromAi :: "AiResult option \<Rightarrow> DesignConfig" where
  "designFromAi outcome =
     (case outcome of
        None \<Rightarrow> defaultDesign
      | Some result \<Rightarrow>
          (let d1 = (case resultBackgroundType result of
                       Some b \<Rightarrow> defaultDesign\<lparr>backgroundType := b\<rparr>
                     | None \<Rightarrow> defaultDesign);
               d2 = (case resultTextColor result of
                       Some c \<Rightarrow> d1\<lparr>textColor := c\<rparr>
                     | None \<Rightarrow> d1);
               d3 = (case resultOpacity result of
                       Some x \<Rightarrow> if x \<noteq> 0 then d2\<lparr>opacity := x\<rparr> else d2
                     | None \<Rightarrow> d2)
           in d3))"

section \<open>fetchVerseAndDesign, after the response is parsed\<close>

record CombinedResponse =
  segments' :: "VerseSegment list"
  design :: DesignConfig

definition contextText :: "VerseSegment list \<Rightarrow> jsstring" where
  "contextText segs = (case segs of [] \<Rightarrow> [] | s # _ \<Rightarrow> translation s)"

definition fetchVerseAndDesign ::
  "(jsstring \<Rightarrow> jsstring) \<Rightarrow> nat \<Rightarrow> Ayah list \<Rightarrow> Ayah list \<Rightarrow> jsstring \<Rightarrow> error + CombinedResponse"
where
  "fetchVerseAndDesign toLowerCase randomIndex arabicAyahs transAyahs surahName =
     (case smartGrouping transOrFallback arabicAyahs transAyahs surahName of
        Inl e \<Rightarrow> Inl e
      | Inr segs \<Rightarrow>
          Inr \<lparr>segments' = segs,
               design = getDesignFromText toLowerCase randomIndex (contextText segs)\<rparr>)"

definition fetchVerseAndDesign_gemini ::
  "AiResult option \<Rightarrow> Ayah list \<Rightarrow> Ayah list \<Rightarrow> jsstring \<Rightarrow> error + CombinedResponse"
where
  "fetchVerseAndDesign_gemini outcome arabicAyahs transAyahs surahName =
     (case smartGrouping transOrUndefined arabicAyahs transAyahs surahName of
        Inl e \<Rightarrow> Inl e
      | Inr segs \<Rightarrow> Inr \<lparr>segments' = segs, design = designFromAi outcome\<rparr>)"

section \<open>Numeral conversion: proofs\<close>

lemma digit_cases: "d < 10 \<Longrightarrow> d \<in> {0, 1, 2, 3, 4, 5, 6, 7, 8, 9::nat}"
  by auto

lemma replace_digitChar:
  assumes "d < 10"
  shows "(if isDigit (digitChar d) then arabicDigits ! parseInt (digitChar d) else [digitChar d])
           = [digitChar d + 0x630]"
  using digit_cases [OF assms]
  by (auto simp: isDigit_def digitChar_def parseInt_def arabicDigits_def)

lemma convert_map: "convertToArabicNumerals n = map (\<lambda>c. c + 0x630) (toString n)"
proof (induction n rule: toString.induct)
  case (1 n)
  show ?case
  proof (cases "n < 10")
    case True
    then show ?thesis
      using replace_digitChar [of n]
      by (simp add: convertToArabicNumerals_def replaceDigits_def toString.simps [of n])
  next
    case False
    then have "n mod 10 < 10" by simp
    with False 1 show ?thesis
      using replace_digitChar [of "n mod 10"]
      by (simp add: convertToArabicNumerals_def replaceDigits_def toString.simps [of n])
  qed
qed







section \<open>Smart grouping: proofs\<close>

subsection \<open>The scan on indices\<close>

lemma chunk_loop_concat:
  "concat (chunk_loop len is out cur n) = concat out @ cur @ is"
  by (induction "is" arbitrary: out cur n) simp_all

lemma chunk_loop_nonempty:
  "[] \<notin> set out \<Longrightarrow> [] \<notin> set (chunk_loop len is out cur n)"
proof (induction "is" arbitrary: out cur n)
  case Nil
  then show ?case by simp
next
  case (Cons i "is")
  show ?case
  proof (cases "n + len i > TARGET_CARD_CAPACITY \<and> cur \<noteq> []")
    case True
    with Cons.prems have "[] \<notin> set (out @ [cur])" by auto
    from Cons.IH [OF this] True show ?thesis by simp
  next
    case False
    from Cons.IH [OF Cons.prems] False show ?thesis by auto
  qed
qed

lemma chunk_loop_capped:
  assumes "n = sum_list (map len cur)" and "capped len cur" and "list_all (capped len) out"
  shows "list_all (capped len) (chunk_loop len is out cur n)"
  using assms
proof (induction "is" arbitrary: out cur n)
  case Nil
  then show ?case by simp
next
  case (Cons i "is")
  show ?case
  proof (cases "n + len i > TARGET_CARD_CAPACITY \<and> cur \<noteq> []")
    case True
    have "list_all (capped len) (chunk_loop len is (out @ [cur]) [i] (len i))"
      by (rule Cons.IH) (use Cons.prems in \<open>simp_all add: capped_def\<close>)
    with True show ?thesis by simp
  next
    case False
    have "capped len (cur @ [i])"
      using False Cons.prems(1) by (cases cur) (auto simp: capped_def)
    then have "list_all (capped len) (chunk_loop len is out (cur @ [i]) (n + len i))"
      using Cons.prems by (intro Cons.IH) simp_all
    with False show ?thesis by auto
  qed
qed

lemma chunk_loop_maximal:
  assumes "n = sum_list (map len cur)" and "cur = [] \<longrightarrow> out = []"
    and "successively (overflows len) (out @ [cur])"
  shows "successively (overflows len) (chunk_loop len is out cur n)"
  using assms
proof (induction "is" arbitrary: out cur n)
  case Nil
  then show ?case by auto
next
  case (Cons i "is")
  show ?case
  proof (cases "n + len i > TARGET_CARD_CAPACITY \<and> cur \<noteq> []")
    case True
    have "successively (overflows len) ((out @ [cur]) @ [[i]])"
      using True Cons.prems
      by (simp only: successively_append_iff [of _ "out @ [cur]"]) (simp add: overflows_def)
    then have "successively (overflows len) (chunk_loop len is (out @ [cur]) [i] (len i))"
      by (intro Cons.IH) simp_all
    with True show ?thesis by simp
  next
    case False
    have "successively (overflows len) (out @ [cur @ [i]])"
    proof (cases "cur = []")
      case True
      with Cons.prems show ?thesis by simp
    next
      case nonempty: False
      with Cons.prems(3) show ?thesis
        by (auto simp: successively_append_iff overflows_def)
    qed
    then have "successively (overflows len) (chunk_loop len is out (cur @ [i]) (n + len i))"
      using Cons.prems by (intro Cons.IH) simp_all
    with False show ?thesis by auto
  qed
qed

lemma successively_nth:
  "successively P xs \<longleftrightarrow> (\<forall>k. Suc k < length xs \<longrightarrow> P (xs ! k) (xs ! Suc k))"
proof (induction P xs rule: successively.induct)
  case (3 P x y xs)
  show ?case
  proof
    assume a: "successively P (x # y # xs)"
    show "\<forall>k. Suc k < length (x # y # xs) \<longrightarrow> P ((x # y # xs) ! k) ((x # y # xs) ! Suc k)"
    proof (intro allI impI)
      fix k assume "Suc k < length (x # y # xs)"
      then show "P ((x # y # xs) ! k) ((x # y # xs) ! Suc k)"
        using a 3 by (cases k) auto
    qed
  next
    assume a: "\<forall>k. Suc k < length (x # y # xs) \<longrightarrow> P ((x # y # xs) ! k) ((x # y # xs) ! Suc k)"
    from a [rule_format, of 0] have "P x y" by simp
    moreover have "\<forall>k. Suc k < length (y # xs) \<longrightarrow> P ((y # xs) ! k) ((y # xs) ! Suc k)"
      using a [rule_format, of "Suc k" for k] by simp
    ultimately show "successively P (x # y # xs)" using 3 by simp
  qed
qed simp_all


lemma those_map_Some: "those (map (\<lambda>j. Some (f j)) c) = Some (map f c)"
  by (induction c) simp_all

lemma pushSegment_segmentOf:
  assumes "c \<noteq> []"
  shows "pushSegment segs (map (\<lambda>j. ar ! j) c) (map (\<lambda>j. Some (translationAt ar tr j)) c) name
           = Inr (segs @ [segmentOf ar tr name c])"
proof -
  from assms obtain i c' where c: "c = i # c'" by (cases c) auto
  have "hd (map (\<lambda>j. ar ! j) c) = ar ! hd c" "last (map (\<lambda>j. ar ! j) c) = ar ! last c"
    using assms by (simp_all add: hd_map last_map)
  then show ?thesis
    unfolding pushSegment_def segmentOf_def those_map_Some
    by (simp add: c)
qed

lemma loop_body_tracks:
  assumes "tracks ar tr name s out cur n"
    and "t = Some (translationAt ar tr i)"
  shows "\<exists>s'. loop_body name (ar ! i) t s = Inr s'
           \<and> (if n + lengthAt ar i > TARGET_CARD_CAPACITY \<and> cur \<noteq> []
              then tracks ar tr name s' (out @ [cur]) [i] (lengthAt ar i)
              else tracks ar tr name s' out (cur @ [i]) (n + lengthAt ar i))"
proof (cases "n + lengthAt ar i > TARGET_CARD_CAPACITY \<and> cur \<noteq> []")
  case True
  then have "pushSegment (segments s) (currentChunkArabic s) (currentChunkTrans s) name
      = Inr (segments s @ [segmentOf ar tr name cur])"
    using assms(1) pushSegment_segmentOf [of cur "segments s" ar tr name]
    by (simp add: tracks_def)
  with True assms show ?thesis
    by (simp add: loop_body_def tracks_def lengthAt_def)
next
  case False
  with assms show ?thesis
    by (auto simp: loop_body_def tracks_def lengthAt_def)
qed

lemma grouping_loop_tracks:
  assumes "\<forall>j<length ar. sel tr j (ar ! j) = Some (translationAt ar tr j)"
    and "tracks ar tr name s out cur n"
  shows "(case grouping_loop sel ar tr name i s of
            Inl e \<Rightarrow> Inl e
          | Inr s' \<Rightarrow> pushRemaining name s')
         = Inr (map (segmentOf ar tr name) (chunk_loop (lengthAt ar) [i..<length ar] out cur n))"
  using assms
proof (induction sel ar tr name i s arbitrary: out cur n rule: grouping_loop.induct)
  case (1 sel ar tr name i s)
  show ?case
  proof (cases "i < length ar")
    case True
    with "1.prems"(1) have t: "sel tr i (ar ! i) = Some (translationAt ar tr i)" by simp
    from loop_body_tracks [OF "1.prems"(2) t]
    obtain s' where body: "loop_body name (ar ! i) (sel tr i (ar ! i)) s = Inr s'"
      and tr': "if n + lengthAt ar i > TARGET_CARD_CAPACITY \<and> cur \<noteq> []
              then tracks ar tr name s' (out @ [cur]) [i] (lengthAt ar i)
              else tracks ar tr name s' out (cur @ [i]) (n + lengthAt ar i)"
      by blast
    have up: "[i..<length ar] = i # [Suc i..<length ar]"
      using True by (simp add: upt_conv_Cons)
    show ?thesis
    proof (cases "n + lengthAt ar i > TARGET_CARD_CAPACITY \<and> cur \<noteq> []")
      case close: True
      with tr' have "tracks ar tr name s' (out @ [cur]) [i] (lengthAt ar i)" by simp
      from "1.IH" [OF True body "1.prems"(1) this] close body True show ?thesis
        by (simp add: grouping_loop.simps [of sel ar tr name i] up)
    next
      case keep: False
      with tr' have "tracks ar tr name s' out (cur @ [i]) (n + lengthAt ar i)" by simp
      from "1.IH" [OF True body "1.prems"(1) this] keep body True show ?thesis
        by (auto simp: grouping_loop.simps [of sel ar tr name i] up)
    qed
  next
    case False
    then have "[i..<length ar] = []" by simp
    with False "1.prems"(2) show ?thesis
      using pushSegment_segmentOf [of cur "segments s" ar tr name]
      by (auto simp: grouping_loop.simps [of sel ar tr name i] pushRemaining_def tracks_def)
  qed
qed

lemma smartGrouping_chunks:
  assumes "\<forall>j<length ar. sel tr j (ar ! j) = Some (translationAt ar tr j)"
  shows "smartGrouping sel ar tr name = Inr (map (segmentOf ar tr name) (chunks ar))"
proof -
  have "tracks ar tr name
          \<lparr>segments = [], currentChunkArabic = [], currentChunkTrans = [], currentLength = 0\<rparr>
          [] [] 0"
    by (simp add: tracks_def)
  with assms show ?thesis
    unfolding smartGrouping_def chunks_def
    by (rule grouping_loop_tracks [where sel = sel and i = 0])
qed

lemma transOrFallback_translationAt:
  "transOrFallback tr j (ar ! j) = Some (translationAt ar tr j)"
  by (simp add: transOrFallback_def translationAt_def elemAt_def)

lemma transOrUndefined_translationAt:
  "j < length tr \<Longrightarrow> transOrUndefined tr j (ar ! j) = Some (translationAt ar tr j)"
  by (simp add: transOrUndefined_def translationAt_def elemAt_def)

lemma part000_grouping:
  "smartGrouping transOrFallback ar tr name = Inr (map (segmentOf ar tr name) (chunks ar))"
  by (rule smartGrouping_chunks) (simp add: transOrFallback_translationAt)

lemma gemini_grouping:
  "length ar \<le> length tr \<Longrightarrow>
   smartGrouping transOrUndefined ar tr name = Inr (map (segmentOf ar tr name) (chunks ar))"
  by (rule smartGrouping_chunks) (simp add: transOrUndefined_translationAt)

lemma chunks_concat: "concat (chunks ar) = [0..<length ar]"
  by (simp add: chunks_def chunk_loop_concat)

lemma chunks_nonempty: "[] \<notin> set (chunks ar)"
  by (simp add: chunks_def chunk_loop_nonempty)

lemma chunks_capped:
  assumes "c \<in> set (chunks ar)" and "2 \<le> length c"
  shows "chunkLength ar c \<le> 450"
proof -
  have "list_all (capped (lengthAt ar)) (chunks ar)"
    unfolding chunks_def by (rule chunk_loop_capped) (simp_all add: capped_def)
  with assms show ?thesis
    by (auto simp: list_all_iff capped_def chunkLength_def TARGET_CARD_CAPACITY_def)
qed

lemma chunks_maximal:
  assumes "Suc k < length (chunks ar)"
  shows "450 < chunkLength ar (chunks ar ! k) + lengthAt ar (hd (chunks ar ! Suc k))"
proof -
  have "successively (overflows (lengthAt ar)) (chunks ar)"
    unfolding chunks_def by (rule chunk_loop_maximal) simp_all
  with assms show ?thesis
    by (simp add: successively_nth overflows_def chunkLength_def TARGET_CARD_CAPACITY_def)
qed



lemma chunks_cover:
  assumes "i < length ar"
  shows "\<exists>c\<in>set (chunks ar). i \<in> set c"
proof -
  from assms have "i \<in> set (concat (chunks ar))" by (simp add: chunks_concat)
  then show ?thesis by auto
qed




lemma length_le_concat: "[] \<notin> set cs \<Longrightarrow> length cs \<le> length (concat cs)"
proof (induction cs)
  case Nil
  then show ?case by simp
next
  case (Cons c cs)
  then have "c \<noteq> []" and le: "length cs \<le> length (concat cs)" by auto
  then obtain x xs where "c = x # xs" by (cases c) auto
  with le show ?case by simp
qed

lemma chunks_length: "length (chunks ar) \<le> length ar"
  using length_le_concat [OF chunks_nonempty, of ar] by (simp add: chunks_concat)


lemma chunks_example: "chunks exampleAyahs = [[0, 1], [2]]"
  by (simp add: chunks_def exampleAyahs_def verseOfLength_def lengthAt_def upt_rec
      TARGET_CARD_CAPACITY_def)

lemma chunks_oversized: "chunks oversizedAyahs = [[0], [1], [2]]"
  by (simp add: chunks_def oversizedAyahs_def verseOfLength_def lengthAt_def upt_rec
      TARGET_CARD_CAPACITY_def)



text \<open>
  Claim C2. With the capacity 450: a chunk of two or more verses has a combined source-text
  length of at most 450, and for every chunk but the last, its combined length plus the
  length of the first verse of the next chunk exceeds 450.
\<close>

theorem segments_capacity_and_maximal:
  "smartGrouping transOrFallback arabicAyahs transAyahs surahName
     = Inr (map (segmentOf arabicAyahs transAyahs surahName) (chunks arabicAyahs))
   \<and> (\<forall>c\<in>set (chunks arabicAyahs). 2 \<le> length c \<longrightarrow> chunkLength arabicAyahs c \<le> 450)
   \<and> (\<forall>k. Suc k < length (chunks arabicAyahs) \<longrightarrow>
         450 < chunkLength arabicAyahs (chunks arabicAyahs ! k)
                 + lengthAt arabicAyahs (hd (chunks arabicAyahs ! Suc k)))"
proof (intro conjI ballI allI impI)
  show "smartGrouping transOrFallback arabicAyahs transAyahs surahName
     = Inr (map (segmentOf arabicAyahs transAyahs surahName) (chunks arabicAyahs))"
    by (rule part000_grouping)
next
  fix c assume "c \<in> set (chunks arabicAyahs)" and "2 \<le> length c"
  then show "chunkLength arabicAyahs c \<le> 450"
    by (rule chunks_capped)
next
  fix k assume "Suc k < length (chunks arabicAyahs)"
  then show "450 < chunkLength arabicAyahs (chunks arabicAyahs ! k)
                 + lengthAt arabicAyahs (hd (chunks arabicAyahs ! Suc k))"
    by (rule chunks_maximal)
qed

theorem segments_capacity_and_maximal_witness:
  "chunks exampleAyahs = [[0, 1], [2]]
   \<and> [0, 1] \<in> set (chunks exampleAyahs) \<and> (2::nat) \<le> length [0, 1::nat]
   \<and> chunkLength exampleAyahs [0, 1] = 300 \<and> chunkLength exampleAyahs [0, 1] \<le> 450
   \<and> Suc 0 < length (chunks exampleAyahs)
   \<and> chunkLength exampleAyahs (chunks exampleAyahs ! 0)
        + lengthAt exampleAyahs (hd (chunks exampleAyahs ! Suc 0)) = 500
   \<and> 450 < chunkLength exampleAyahs (chunks exampleAyahs ! 0)
        + lengthAt exampleAyahs (hd (chunks exampleAyahs ! Suc 0))"
  using segments_capacity_and_maximal [of exampleAyahs "[]" "js ''Al-Faatiha''"]
  by (simp add: chunks_example)
     (simp add: chunkLength_def lengthAt_def exampleAyahs_def verseOfLength_def)

lemma member_le_sum_list_nat: "(x::nat) \<in> set xs \<Longrightarrow> x \<le> sum_list xs"
  by (induction xs) auto

lemma oversized_singleton:
  assumes c: "c \<in> set (chunks ar)" and i: "i \<in> set c" and big: "450 < lengthAt ar i"
  shows "c = [i]"
proof -
  have "lengthAt ar i \<le> chunkLength ar c"
    unfolding chunkLength_def using i by (intro member_le_sum_list_nat) simp
  with big have "\<not> chunkLength ar c \<le> 450" by simp
  with chunks_capped [OF c] have "\<not> 2 \<le> length c" by blast
  then have "length c < 2" by simp
  with i show ?thesis by (cases c) auto
qed

text \<open>
  Claim C3. A verse whose source text alone is longer than 450 code units is in the output
  as a segment of its own: the chunk \<open>[i]\<close> is one of the chunks, every chunk that holds
  \<open>i\<close> is that chunk, and the segment's Arabic text is the verse's whole text followed by
  its verse-end mark and number.
\<close>

theorem oversized_verse_own_segment:
  assumes "i < length arabicAyahs" and "450 < length (text (arabicAyahs ! i))"
  shows "smartGrouping transOrFallback arabicAyahs transAyahs surahName
           = Inr (map (segmentOf arabicAyahs transAyahs surahName) (chunks arabicAyahs))
         \<and> [i] \<in> set (chunks arabicAyahs)
         \<and> (\<forall>c\<in>set (chunks arabicAyahs). i \<in> set c \<longrightarrow> c = [i])
         \<and> arabic (segmentOf arabicAyahs transAyahs surahName [i])
             = text (arabicAyahs ! i) @ [0x20, 0x6DD]
                 @ convertToArabicNumerals (numberInSurah (arabicAyahs ! i))"
proof -
  from assms(2) have big: "450 < lengthAt arabicAyahs i" by (simp add: lengthAt_def)
  from chunks_cover [OF assms(1)] obtain c where "c \<in> set (chunks arabicAyahs)" "i \<in> set c"
    by blast
  with oversized_singleton [OF _ _ big] have "[i] \<in> set (chunks arabicAyahs)" by auto
  moreover have "\<forall>c\<in>set (chunks arabicAyahs). i \<in> set c \<longrightarrow> c = [i]"
    using oversized_singleton [OF _ _ big] by blast
  moreover have "arabic (segmentOf arabicAyahs transAyahs surahName [i])
             = text (arabicAyahs ! i) @ [0x20, 0x6DD]
                 @ convertToArabicNumerals (numberInSurah (arabicAyahs ! i))"
    by (simp add: segmentOf_def arabicText_def)
  ultimately show ?thesis using part000_grouping by blast
qed

text \<open>Claim C3, at a concrete input: the verse of 500 code units of \<open>oversizedAyahs\<close> is
  the second of three segments.\<close>

theorem oversized_verse_own_segment_witness:
  "(1::nat) < length oversizedAyahs \<and> 450 < length (text (oversizedAyahs ! 1))
   \<and> chunks oversizedAyahs = [[0], [1], [2]]
   \<and> smartGrouping transOrFallback oversizedAyahs [] (js ''Al-Baqara'')
        = Inr (map (segmentOf oversizedAyahs [] (js ''Al-Baqara'')) [[0], [1], [2]])
   \<and> [1] \<in> set (chunks oversizedAyahs)
   \<and> arabic (segmentOf oversizedAyahs [] (js ''Al-Baqara'') [1])
        = replicate 500 0x627 @ [0x20, 0x6DD, 0x662]"
proof -
  have len: "(1::nat) < length oversizedAyahs" and big: "450 < length (text (oversizedAyahs ! 1))"
    by (simp_all add: oversizedAyahs_def verseOfLength_def)
  have conv: "convertToArabicNumerals 2 = [0x662]"
    by (simp add: convert_map toString.simps digitChar_def)
  have v: "oversizedAyahs ! Suc 0 = verseOfLength 500 2"
    by (simp add: oversizedAyahs_def)
  from oversized_verse_own_segment [OF len big, of "[]" "js ''Al-Baqara''"] len big
  show ?thesis
    by (simp add: chunks_oversized v) (simp add: verseOfLength_def conv)
qed

text \<open>
  Claim C10. No chunk of the scan is empty, so every segment holds at least one verse, and
  there are at most as many segments as input verses.
\<close>

theorem segments_never_empty:
  "smartGrouping transOrFallback arabicAyahs transAyahs surahName
     = Inr (map (segmentOf arabicAyahs transAyahs surahName) (chunks arabicAyahs))
   \<and> [] \<notin> set (chunks arabicAyahs)
   \<and> length (map (segmentOf arabicAyahs transAyahs surahName) (chunks arabicAyahs))
        \<le> length arabicAyahs"
proof (intro conjI)
  show "smartGrouping transOrFallback arabicAyahs transAyahs surahName
     = Inr (map (segmentOf arabicAyahs transAyahs surahName) (chunks arabicAyahs))"
    by (rule part000_grouping)
  show "[] \<notin> set (chunks arabicAyahs)"
    by (rule chunks_nonempty)
  show "length (map (segmentOf arabicAyahs transAyahs surahName) (chunks arabicAyahs))
        \<le> length arabicAyahs"
    using chunks_length [of arabicAyahs] by simp
qed

subsection \<open>Labels\<close>








text \<open>
  Without increasing numbers the label follows the numbers, not the count: two verses that
  both carry the number 5 share one segment, labelled \<open>5\<close>.
\<close>

lemma label_compares_numbers:
  "map_sum id (map ayah)
     (smartGrouping transOrFallback [verseOfLength 10 5, verseOfLength 10 5] [] (js ''X''))
   = Inr [js ''5'']"
proof -
  have "chunks [verseOfLength 10 5, verseOfLength 10 5] = [[0, 1]]"
    by (simp add: chunks_def verseOfLength_def lengthAt_def upt_rec TARGET_CARD_CAPACITY_def)
  moreover have "toString 5 = js ''5''"
    by (simp add: toString.simps digitChar_def js_def)
  ultimately show ?thesis
    by (simp add: part000_grouping segmentOf_def ayahLabel_def verseOfLength_def)
qed

subsection \<open>Missing translations\<close>

lemma part000_substitutes_missing_translation:
  "translation (segmentOf ar tr name c)
     = join (js '' '')
         (map (\<lambda>i. if i < length tr
                    then text (tr ! i) @ js '' ('' @ toString (numberInSurah (tr ! i)) @ js '')''
                    else js '' ('' @ toString (numberInSurah (ar ! i)) @ js '')'') c)"
proof -
  have "map (\<lambda>t. text t @ js '' ('' @ toString (numberInSurah t) @ js '')'')
          (map (translationAt ar tr) c)
      = map (\<lambda>i. if i < length tr
                    then text (tr ! i) @ js '' ('' @ toString (numberInSurah (tr ! i)) @ js '')''
                    else js '' ('' @ toString (numberInSurah (ar ! i)) @ js '')'') c"
    by (simp add: translationAt_def)
  moreover have "translation (segmentOf ar tr name c)
      = join (js '' '') (map (\<lambda>t. text t @ js '' ('' @ toString (numberInSurah t) @ js '')'')
          (map (translationAt ar tr) c))"
    by (simp only: segmentOf_def transText_def VerseSegment.select_convs)
  ultimately show ?thesis by (simp only:)
qed

lemma error_is_TypeError: "(e::error) = TypeError"
  by (cases e) simp

lemma those_None: "None \<in> set xs \<Longrightarrow> those xs = None"
  by (induction xs) (auto split: option.splits)

lemma pushSegment_poisoned:
  "None \<in> set transChunk \<Longrightarrow> pushSegment segs arabicChunk transChunk name = Inl TypeError"
  by (simp add: pushSegment_def those_None split: list.splits)

lemma loop_body_poisoned:
  assumes "poisoned s \<or> t = None"
  shows "loop_body name v t s = Inl TypeError \<or> (\<exists>s'. loop_body name v t s = Inr s' \<and> poisoned s')"
proof (cases "currentLength s + length (text v) > TARGET_CARD_CAPACITY
              \<and> length (currentChunkArabic s) > 0")
  case True
  show ?thesis
  proof (cases "pushSegment (segments s) (currentChunkArabic s) (currentChunkTrans s) name")
    case (Inl e)
    with True show ?thesis
      by (simp add: loop_body_def error_is_TypeError [of e])
  next
    case (Inr segs)
    with pushSegment_poisoned [of "currentChunkTrans s" "segments s" "currentChunkArabic s" name]
    have "\<not> poisoned s" by (auto simp: poisoned_def)
    with assms have "t = None" by simp
    with True Inr show ?thesis
      by (simp add: loop_body_def poisoned_def)
  qed
next
  case False
  with assms show ?thesis
    by (auto simp: loop_body_def poisoned_def)
qed

lemma grouping_loop_poisoned:
  assumes "poisoned s"
  shows "(case grouping_loop sel ar tr name i s of
            Inl e \<Rightarrow> Inl e
          | Inr s' \<Rightarrow> pushRemaining name s') = Inl TypeError"
  using assms
proof (induction sel ar tr name i s rule: grouping_loop.induct)
  case (1 sel ar tr name i s)
  show ?case
  proof (cases "i < length ar")
    case True
    from loop_body_poisoned [of s _ name "ar ! i", OF disjI1 [OF "1.prems"]]
    consider "loop_body name (ar ! i) (sel tr i (ar ! i)) s = Inl TypeError"
      | s' where "loop_body name (ar ! i) (sel tr i (ar ! i)) s = Inr s'" "poisoned s'"
      by blast
    then show ?thesis
    proof cases
      case 1
      with True show ?thesis by (simp add: grouping_loop.simps [of sel ar tr name i])
    next
      case 2
      from "1.IH" [OF True 2] 2(1) True show ?thesis
        by (simp add: grouping_loop.simps [of sel ar tr name i])
    qed
  next
    case False
    with "1.prems" show ?thesis
      by (simp add: grouping_loop.simps [of sel ar tr name i] pushRemaining_def poisoned_def
          pushSegment_poisoned)
  qed
qed

lemma grouping_loop_undefined:
  assumes "length tr < length ar" and "i \<le> length tr"
  shows "(case grouping_loop transOrUndefined ar tr name i s of
            Inl e \<Rightarrow> Inl e
          | Inr s' \<Rightarrow> pushRemaining name s') = Inl TypeError"
  using assms
proof (induction transOrUndefined ar tr name i s rule: grouping_loop.induct)
  case (1 ar tr name i s)
  from "1.prems" have lt: "i < length ar" by simp
  show ?case
  proof (cases "loop_body name (ar ! i) (transOrUndefined tr i (ar ! i)) s")
    case (Inl e)
    with lt show ?thesis
      by (simp add: grouping_loop.simps [of _ ar tr name i] error_is_TypeError [of e])
  next
    case (Inr s')
    show ?thesis
    proof (cases "i = length tr")
      case True
      then have "transOrUndefined tr i (ar ! i) = None"
        by (simp add: transOrUndefined_def elemAt_def)
      with loop_body_poisoned [of s "transOrUndefined tr i (ar ! i)" name "ar ! i"] Inr
      have "poisoned s'" by simp
      from grouping_loop_poisoned [OF this] Inr lt show ?thesis
        by (simp add: grouping_loop.simps [of _ ar tr name i])
    next
      case False
      with "1.prems" have "Suc i \<le> length tr" by simp
      from "1.hyps" [OF lt Inr "1.prems"(1) this] Inr lt show ?thesis
        by (simp add: grouping_loop.simps [of _ ar tr name i])
    qed
  qed
qed

lemma gemini_missing_translation_fails:
  "length tr < length ar \<Longrightarrow> smartGrouping transOrUndefined ar tr name = Inl TypeError"
  unfolding smartGrouping_def
  by (rule grouping_loop_undefined) simp_all

lemma gemini_grouping_iff:
  "(\<exists>segs. smartGrouping transOrUndefined ar tr name = Inr segs) \<longleftrightarrow> length ar \<le> length tr"
  using gemini_missing_translation_fails [of tr ar name] gemini_grouping [of ar tr name]
  by (cases "length ar \<le> length tr") auto

lemma fetchVerseAndDesign_returns:
  "fetchVerseAndDesign toLowerCase randomIndex ar tr name
     = Inr \<lparr>segments' = map (segmentOf ar tr name) (chunks ar),
            design = getDesignFromText toLowerCase randomIndex
                       (contextText (map (segmentOf ar tr name) (chunks ar)))\<rparr>"
  by (simp add: fetchVerseAndDesign_def part000_grouping)

lemma fetchVerseAndDesign_gemini_returns:
  "length ar \<le> length tr \<Longrightarrow>
   fetchVerseAndDesign_gemini outcome ar tr name
     = Inr \<lparr>segments' = map (segmentOf ar tr name) (chunks ar), design = designFromAi outcome\<rparr>"
  by (simp add: fetchVerseAndDesign_gemini_def gemini_grouping)

lemma fetchVerseAndDesign_gemini_throws:
  "length tr < length ar \<Longrightarrow>
   fetchVerseAndDesign_gemini outcome ar tr name = Inl TypeError"
  by (simp add: fetchVerseAndDesign_gemini_def gemini_missing_translation_fails)

text \<open>
  Claim C4. With a translation array shorter than the Arabic array, part_000 substitutes
  the empty string and the verse's own number and returns its segments (lemmas
  \<open>part000_grouping\<close> and \<open>part000_substitutes_missing_translation\<close>). geminiService.ts
  pushes \<open>undefined\<close> and throws a TypeError in \<open>pushSegment\<close>, on every such input (lemma
  \<open>gemini_missing_translation_fails\<close>). The theorem evaluates both versions on one verse
  with no translation.
\<close>

theorem geminiService_missing_translation:
  "smartGrouping transOrUndefined [\<lparr>text = [0x627], numberInSurah = 1\<rparr>] [] (js ''Al-Faatiha'')
     = Inl TypeError
   \<and> smartGrouping transOrFallback [\<lparr>text = [0x627], numberInSurah = 1\<rparr>] [] (js ''Al-Faatiha'')
     = Inr [\<lparr>arabic = [0x627, 0x20, 0x6DD, 0x661], translation = js '' (1)'',
            surah = js ''Al-Faatiha'', ayah = js ''1''\<rparr>]"
proof -
  have "smartGrouping transOrUndefined [\<lparr>text = [0x627], numberInSurah = 1\<rparr>] []
          (js ''Al-Faatiha'') = Inl TypeError"
    by (simp add: smartGrouping_def grouping_loop.simps loop_body_def pushRemaining_def
        pushSegment_def transOrUndefined_def elemAt_def TARGET_CARD_CAPACITY_def)
  moreover have "smartGrouping transOrFallback [\<lparr>text = [0x627], numberInSurah = 1\<rparr>] []
          (js ''Al-Faatiha'')
     = Inr [\<lparr>arabic = [0x627, 0x20, 0x6DD, 0x661], translation = js '' (1)'',
            surah = js ''Al-Faatiha'', ayah = js ''1''\<rparr>]"
    by (simp add: smartGrouping_def grouping_loop.simps loop_body_def pushRemaining_def
        pushSegment_def transOrFallback_def elemAt_def TARGET_CARD_CAPACITY_def
        arabicText_def transText_def ayahLabel_def js_def toString.simps digitChar_def
        convert_map)
  ultimately show ?thesis by simp
qed

section \<open>Theme classifier: proofs\<close>

lemma countWords_filter:
  "countWords lt t ws sc = sc(t := sc t + length (filter (stringIncludes lt) ws))"
  unfolding countWords_def
  by (induction ws arbitrary: sc) (simp_all add: fun_eq_iff)

lemma keywordsOf_simps:
  "keywordsOf JANNAT = wordsJANNAT" "keywordsOf SKY = wordsSKY" "keywordsOf NATURE = wordsNATURE"
  by (simp_all add: keywordsOf_def keywordTable_def)

lemma countScores_spec: "countScores lt t = spec_score lt t"
  by (cases t) (simp_all add: countScores_def keywordTable_def countWords_filter spec_score_def
      keywordsOf_simps)

lemma selectBest_spec:
  "selectBest (spec_score lt) = (spec_choice lt, int (spec_highest lt))"
  by (simp add: selectBest_def types_def spec_choice_def spec_highest_def max_def)

lemma distinct_words: "distinct wordsJANNAT" "distinct wordsSKY" "distinct wordsNATURE"
  by (simp_all add: wordsJANNAT_def wordsSKY_def wordsNATURE_def js_def)



lemma getDesignFromText_spec:
  "getDesignFromText toLowerCase randomIndex input =
     \<lparr>backgroundType = (if spec_highest (toLowerCase input) = 0 then types ! randomIndex
                         else spec_choice (toLowerCase input)),
      textColor = white, opacity = 0.5\<rparr>"
proof -
  have "countScores (toLowerCase input) = spec_score (toLowerCase input)"
    by (rule ext) (rule countScores_spec)
  then show ?thesis
    by (simp add: getDesignFromText_def selectBest_spec)
qed

lemma spec_score_card:
  "spec_score lt t = card {w \<in> set (keywordsOf t). stringIncludes lt w}"
proof -
  have "distinct (keywordsOf t)"
    by (cases t) (simp_all add: keywordsOf_simps distinct_words)
  then have "length (filter (stringIncludes lt) (keywordsOf t))
      = card ({w. stringIncludes lt w} \<inter> set (keywordsOf t))"
    by (rule distinct_length_filter)
  also have "{w. stringIncludes lt w} \<inter> set (keywordsOf t)
      = {w \<in> set (keywordsOf t). stringIncludes lt w}"
    by auto
  finally show ?thesis by (simp add: spec_score_def)
qed



lemma spec_choice_highest: "spec_score lt (spec_choice lt) = spec_highest lt"
  by (simp add: spec_choice_def spec_highest_def max_def)

lemma spec_score_le_highest: "spec_score lt t \<le> spec_highest lt"
  by (cases t) (simp_all add: spec_highest_def)

lemma spec_choice_strict:
  assumes "\<forall>t'. t' \<noteq> t \<longrightarrow> spec_score lt t' < spec_score lt t"
  shows "spec_highest lt \<noteq> 0 \<and> spec_choice lt = t"
proof (cases t)
  case SKY
  with assms have "spec_score lt NATURE < spec_score lt SKY" "spec_score lt JANNAT < spec_score lt SKY"
    by simp_all
  with SKY show ?thesis by (simp add: spec_choice_def spec_highest_def max_def)
next
  case NATURE
  with assms have "spec_score lt SKY < spec_score lt NATURE" "spec_score lt JANNAT < spec_score lt NATURE"
    by simp_all
  with NATURE show ?thesis by (simp add: spec_choice_def spec_highest_def max_def)
next
  case JANNAT
  with assms have "spec_score lt NATURE < spec_score lt JANNAT" "spec_score lt SKY < spec_score lt JANNAT"
    by simp_all
  with JANNAT show ?thesis by (simp add: spec_choice_def spec_highest_def max_def)
qed

text \<open>
  Claim C5. The score the code gives a category is the number of that category's words
  that occur in the lower-cased text, each word counted once. When the highest score is
  not 0, the category returned is the first of nature, sky, paradise whose score is the
  highest; its score is at least every other score, and a category whose score is strictly
  above the two others is the one returned.
\<close>

theorem classifier_scores_and_priority:
  "countScores (toLowerCase input) t
     = card {w \<in> set (keywordsOf t). stringIncludes (toLowerCase input) w}
   \<and> countScores (toLowerCase input) t = spec_score (toLowerCase input) t
   \<and> (spec_highest (toLowerCase input) \<noteq> 0 \<longrightarrow>
        backgroundType (getDesignFromText toLowerCase randomIndex input)
          = spec_choice (toLowerCase input)
        \<and> countScores (toLowerCase input) t
            \<le> countScores (toLowerCase input)
                 (backgroundType (getDesignFromText toLowerCase randomIndex input)))
   \<and> ((\<forall>t'. t' \<noteq> t \<longrightarrow> countScores (toLowerCase input) t' < countScores (toLowerCase input) t)
        \<longrightarrow> backgroundType (getDesignFromText toLowerCase randomIndex input) = t)"
proof (intro conjI impI)
  let ?lt = "toLowerCase input"
  let ?r = "backgroundType (getDesignFromText toLowerCase randomIndex input)"
  show "countScores ?lt t = card {w \<in> set (keywordsOf t). stringIncludes ?lt w}"
    by (simp add: countScores_spec spec_score_card)
  show "countScores ?lt t = spec_score ?lt t"
    by (rule countScores_spec)
  show "?r = spec_choice ?lt" if "spec_highest ?lt \<noteq> 0"
    using that by (simp add: getDesignFromText_spec)
  show "countScores ?lt t \<le> countScores ?lt ?r" if "spec_highest ?lt \<noteq> 0"
    using that spec_score_le_highest [of ?lt t]
    by (simp add: getDesignFromText_spec countScores_spec spec_choice_highest)
  show "?r = t" if "\<forall>t'. t' \<noteq> t \<longrightarrow> countScores ?lt t' < countScores ?lt t"
    using spec_choice_strict [of t ?lt] that
    by (simp add: getDesignFromText_spec countScores_spec)
qed

lemma scores_mountain_river:
  "spec_score (asciiLower (js ''Mountain River'')) NATURE = 1"
  "spec_score (asciiLower (js ''Mountain River'')) SKY = 0"
  "spec_score (asciiLower (js ''Mountain River'')) JANNAT = 1"
  by (simp_all add: spec_score_def keywordsOf_simps wordsNATURE_def wordsSKY_def wordsJANNAT_def
      js_def asciiLower_def stringIncludes_def sublist_Cons_right)

text \<open>Claim C5, at a concrete input: the text of the specification, a mountain and a river;
  nature and paradise tie at 1 and nature is returned, whatever the random draw.\<close>

theorem classifier_scores_and_priority_witness:
  "spec_highest (asciiLower (js ''Mountain River'')) \<noteq> 0
   \<and> countScores (asciiLower (js ''Mountain River'')) NATURE = 1
   \<and> countScores (asciiLower (js ''Mountain River'')) SKY = 0
   \<and> countScores (asciiLower (js ''Mountain River'')) JANNAT = 1
   \<and> backgroundType (getDesignFromText asciiLower 2 (js ''Mountain River'')) = NATURE"
proof -
  have h: "spec_highest (asciiLower (js ''Mountain River'')) \<noteq> 0"
    by (simp add: spec_highest_def scores_mountain_river)
  have c: "spec_choice (asciiLower (js ''Mountain River'')) = NATURE"
    by (simp add: spec_choice_def spec_highest_def scores_mountain_river)
  have t: "countScores (asciiLower (js ''Mountain River'')) t
              = spec_score (asciiLower (js ''Mountain River'')) t
           \<and> backgroundType (getDesignFromText asciiLower 2 (js ''Mountain River''))
              = spec_choice (asciiLower (js ''Mountain River''))" for t
    using classifier_scores_and_priority [of asciiLower "js ''Mountain River''" t 2] h
    by blast
  from t [of NATURE] t [of SKY] t [of JANNAT] h c
  show ?thesis by (simp add: scores_mountain_river)
qed



section \<open>Text colour and opacity\<close>

text \<open>
  Claim C9, as amended. The design returned by \<open>getDesignFromText\<close> has text colour white
  and opacity 0.5 for every text. In geminiService.ts these two values are defaults: they
  are returned when the call to the language model fails, and a field of its answer
  replaces the default when it is present and truthy.
\<close>

theorem design_constants_amended:
  "textColor (getDesignFromText toLowerCase randomIndex input) = white
   \<and> opacity (getDesignFromText toLowerCase randomIndex input) = 0.5
   \<and> textColor (designFromAi None) = white
   \<and> opacity (designFromAi None) = 0.5
   \<and> textColor (designFromAi (Some result))
        = (case resultTextColor result of Some c \<Rightarrow> c | None \<Rightarrow> white)
   \<and> opacity (designFromAi (Some result))
        = (case resultOpacity result of Some x \<Rightarrow> if x = 0 then 0.5 else x | None \<Rightarrow> 0.5)"
  by (simp add: getDesignFromText_spec designFromAi_def defaultDesign_def
      split: option.splits)

text \<open>
  The claim as stated fails on geminiService.ts: an answer with text colour black and
  opacity 0.6 (the value the prompt itself asks for) is what the design carries.
\<close>

theorem design_constants_counterexample:
  "fetchVerseAndDesign_gemini
     (Some \<lparr>resultBackgroundType = Some SKY, resultTextColor = Some black,
            resultOpacity = Some 0.6\<rparr>)
     [\<lparr>text = [0x627], numberInSurah = 1\<rparr>]
     [\<lparr>text = js ''the night sky'', numberInSurah = 1\<rparr>]
     (js ''Al-Faatiha'')
   = Inr \<lparr>segments' = [\<lparr>arabic = [0x627, 0x20, 0x6DD, 0x661],
                          translation = js ''the night sky (1)'',
                          surah = js ''Al-Faatiha'', ayah = js ''1''\<rparr>],
          design = \<lparr>backgroundType = SKY, textColor = black, opacity = 0.6\<rparr>\<rparr>
   \<and> black \<noteq> white \<and> (0.6::real) \<noteq> 0.5"
  by (simp add: fetchVerseAndDesign_gemini_def designFromAi_def defaultDesign_def
      smartGrouping_def grouping_loop.simps loop_body_def pushRemaining_def
      pushSegment_def transOrUndefined_def elemAt_def TARGET_CARD_CAPACITY_def
      arabicText_def transText_def ayahLabel_def js_def toString.simps digitChar_def
      convert_map)

end
